theory Spec2Isabelle
  imports Main "HOL-Library.AList" "HOL-Library.Multiset"
begin

section \<open>JavaScript values used by index.js\<close>

text \<open>
  The plugin compares row numbers with property names, so numbers and strings are kept
  apart: \<open>JNumber 3\<close> and \<open>JString ''3''\<close> are different values, as they are
  under JavaScript's strict equality.
\<close>

datatype jsval = JNumber int | JString string

text \<open>Exceptions: a \<open>TypeError\<close> of the language (a property read on \<open>undefined\<close>),
  and whatever an external collaborator (load-config, the lint engine) throws.\<close>

datatype exn = TypeError | Thrown string

text \<open>Decimal rendering of an integer, as JavaScript's number-to-string conversion does
  for integral values.\<close>

definition digit_char :: "nat \<Rightarrow> char" where
  "digit_char n = ''0123456789'' ! n"

function decimal :: "nat \<Rightarrow> string" where
  "decimal n =
     (if n < 10 then [digit_char n]
      else decimal (n div 10) @ [digit_char (n mod 10)])"
  by pat_completeness auto
termination
  by (relation "measure (\<lambda>n. n)") auto

declare decimal.simps [simp del]

definition number_to_string :: "int \<Rightarrow> string" where
  "number_to_string i =
     (if i < 0 then CHR ''-'' # decimal (nat (- i)) else decimal (nat i))"

text \<open>The name under which a value is used as a property key (\<open>obj[row]\<close>).\<close>

fun toPropertyKey :: "jsval \<Rightarrow> string" where
  "toPropertyKey (JNumber n) = number_to_string n"
| "toPropertyKey (JString s) = s"

section \<open>The lodash functions the plugin calls\<close>

text \<open>\<open>_.contains\<close> searches with strict equality.\<close>

definition lodash_contains :: "jsval list \<Rightarrow> jsval \<Rightarrow> bool" where
  "lodash_contains collection target = (target \<in> set collection)"

text \<open>\<open>_.compact\<close> drops the falsy entries of an array: \<open>null\<close>, \<open>undefined\<close> and
  the holes of a sparse array. The entries kept here are objects and arrays, which are
  truthy.\<close>

fun lodash_compact :: "'a option list \<Rightarrow> 'a list" where
  "lodash_compact [] = []"
| "lodash_compact (None # xs) = lodash_compact xs"
| "lodash_compact (Some x # xs) = x # lodash_compact xs"

text \<open>\<open>_.keys\<close>: the own property names of an object, which are strings. An object is an
  association list; its names are listed in the order of the list.\<close>

definition lodash_keys :: "(string \<times> 'a) list \<Rightarrow> jsval list" where
  "lodash_keys obj = map (\<lambda>p. JString (fst p)) obj"

text \<open>\<open>_.first\<close>: the first element, \<open>undefined\<close> for an empty array.\<close>

fun lodash_first :: "'a list \<Rightarrow> 'a option" where
  "lodash_first [] = None"
| "lodash_first (x # _) = Some x"

text \<open>\<open>_.sortBy\<close>: a stable sort, ascending in the criterion.\<close>

definition lodash_sortBy :: "'a list \<Rightarrow> ('a \<Rightarrow> int) \<Rightarrow> 'a list" where
  "lodash_sortBy collection callback = sort_key callback collection"

section \<open>Sparse arrays\<close>

text \<open>\<open>ret = []\<close> followed by \<open>ret[l] = v\<close> makes an array with holes. A hole is
  \<open>None\<close>; reading past the end gives \<open>undefined\<close>; writing past the end extends the
  array with holes.\<close>

definition array_get :: "'a option list \<Rightarrow> nat \<Rightarrow> 'a option" where
  "array_get xs i = (if i < length xs then xs ! i else None)"

definition array_set :: "'a option list \<Rightarrow> nat \<Rightarrow> 'a \<Rightarrow> 'a option list" where
  "array_set xs i v =
     (if i < length xs then xs[i := Some v]
      else xs @ replicate (i - length xs) None @ [Some v])"

section \<open>Data model\<close>

text \<open>A diagnostic of the lint engine. \<open>line\<close> is 1-based, and 0 for a configuration
  error; it is used as an array index, so it is a natural number.\<close>

record diagnostic =
  line :: nat
  character :: int
  reason :: string

type_synonym group = "diagnostic list"

text \<open>A marker is a handle owned by the host.\<close>

type_synonym marker = nat

record editor =
  editor_id :: nat
  grammar_name :: string
  uri :: "string option"
  buffer_text :: string
  cursor_row :: nat

datatype linter = JSHINT | JSXHINT

record config =
  options :: "(string \<times> bool) list"
  globals :: "(string \<times> bool) list option"

text \<open>The object literal \<open>{}\<close> used when the editor has no file.\<close>

definition empty_config :: config where
  "empty_config = \<lparr>options = [], globals = None\<rparr>"

text \<open>Calls into the host and the external collaborators, in the order they are made.\<close>

datatype event =
    MarkerCreated marker nat int
  | MarkerDecorated marker string string
  | MarkerDestroyed marker
  | TooltipDestroyed int
  | TooltipSet int string
  | ConfigLoaded string
  | LinterInvoked linter string

text \<open>
  The two module variables \<open>markersByEditorId\<close> and \<open>errorsByEditorId\<close>, and the part
  of the host the plugin reads and writes: the active editor, the two configuration
  flags, the status bar (absent, or the list of its \<open>#jshint-statusbar\<close> elements), the
  markers alive in the host (handle, editor, row of creation) and the next free handle.
\<close>

record state =
  markersByEditorId :: "nat \<rightharpoonup> (string \<times> marker) list"
  errorsByEditorId :: "nat \<rightharpoonup> group option list"
  activeEditor :: "editor option"
  supportLintingJsx :: bool
  transformJsx :: bool
  statusBar :: "string list option"
  liveMarkers :: "(marker \<times> nat \<times> int) list"
  nextMarker :: nat
  calls :: "event list"

text \<open>A procedure returns the exception it raised, if any, and the state it left.\<close>

type_synonym outcome = "exn option \<times> state"

definition and_then :: "outcome \<Rightarrow> (state \<Rightarrow> outcome) \<Rightarrow> outcome" where
  "and_then r f = (case r of (None, s) \<Rightarrow> f s | (Some e, s) \<Rightarrow> (Some e, s))"

text \<open>\<open>_.each(xs, f)\<close> for a callback that changes the state; an exception ends it.\<close>

fun each :: "('a \<Rightarrow> state \<Rightarrow> outcome) \<Rightarrow> 'a list \<Rightarrow> state \<Rightarrow> outcome" where
  "each f [] s = (None, s)"
| "each f (x # xs) s = and_then (f x s) (each f xs)"

section \<open>Host operations on markers\<close>

definition markBufferRange :: "editor \<Rightarrow> int \<Rightarrow> state \<Rightarrow> marker \<times> state" where
  "markBufferRange ed row s =
     (let m = nextMarker s
      in (m, s\<lparr>liveMarkers := liveMarkers s @ [(m, editor_id ed, row)],
               nextMarker := Suc m,
               calls := calls s @ [MarkerCreated m (editor_id ed) row]\<rparr>))"

definition decorateMarker :: "marker \<Rightarrow> string \<Rightarrow> string \<Rightarrow> state \<Rightarrow> state" where
  "decorateMarker m ty cls s = s\<lparr>calls := calls s @ [MarkerDecorated m ty cls]\<rparr>"

definition marker_destroy :: "marker \<Rightarrow> state \<Rightarrow> state" where
  "marker_destroy m s =
     s\<lparr>liveMarkers := filter (\<lambda>p. fst p \<noteq> m) (liveMarkers s),
       calls := calls s @ [MarkerDestroyed m]\<rparr>"

section \<open>The marker store\<close>

definition getMarkersForEditor :: "state \<Rightarrow> (string \<times> marker) list" where
  "getMarkersForEditor s =
     (case activeEditor s of
        None \<Rightarrow> []
      | Some ed \<Rightarrow>
          (case markersByEditorId s (editor_id ed) of
             None \<Rightarrow> []
           | Some ms \<Rightarrow> ms))"

text \<open>\<open>error[0].line || 1\<close>: line 0 is falsy and is replaced by 1. On an empty group
  \<open>error[0]\<close> is \<open>undefined\<close> and reading its \<open>line\<close> raises.\<close>

fun getRowForError :: "group \<Rightarrow> exn + int" where
  "getRowForError [] = Inl TypeError"
| "getRowForError (e # _) =
     (let l = (if line e = 0 then 1 else int (line e));
          row = l - 1
      in Inr row)"

definition destroyMarkerAtRow :: "jsval \<Rightarrow> state \<Rightarrow> outcome" where
  "destroyMarkerAtRow row s =
     (case activeEditor s of
        None \<Rightarrow> (Some TypeError, s)
      | Some ed \<Rightarrow>
          (case markersByEditorId s (editor_id ed) of
             None \<Rightarrow> (None, s)
           | Some ms \<Rightarrow>
               (case map_of ms (toPropertyKey row) of
                  None \<Rightarrow> (None, s)
                | Some m \<Rightarrow>
                    (let s1 = marker_destroy m s
                     in (None, s1\<lparr>markersByEditorId := (markersByEditorId s1)
                           (editor_id ed \<mapsto> AList.delete (toPropertyKey row) ms)\<rparr>)))))"

text \<open>\<open>_.map(errors, getRowForError)\<close>; the first exception ends it.\<close>

fun rows_of :: "group list \<Rightarrow> exn + int list" where
  "rows_of [] = Inr []"
| "rows_of (g # gs) =
     (case getRowForError g of
        Inl e \<Rightarrow> Inl e
      | Inr row \<Rightarrow> (case rows_of gs of Inl e \<Rightarrow> Inl e | Inr rows \<Rightarrow> Inr (row # rows)))"

text \<open>\<open>rows\<close> holds numbers and \<open>_.keys(oldMarkers)\<close> holds strings.\<close>

definition clearOldMarkers :: "group list \<Rightarrow> state \<Rightarrow> outcome" where
  "clearOldMarkers errors s =
     (case rows_of errors of
        Inl e \<Rightarrow> (Some e, s)
      | Inr rows \<Rightarrow>
          (let oldMarkers = getMarkersForEditor s
           in each (\<lambda>row s'.
                      if \<not> lodash_contains (map JNumber rows) row
                      then destroyMarkerAtRow row s'
                      else (None, s'))
                (lodash_keys oldMarkers) s))"

definition saveMarker :: "marker \<Rightarrow> jsval \<Rightarrow> state \<Rightarrow> outcome" where
  "saveMarker m row s =
     (case activeEditor s of
        None \<Rightarrow> (Some TypeError, s)
      | Some ed \<Rightarrow>
          (let ms = (case markersByEditorId s (editor_id ed) of None \<Rightarrow> [] | Some ms \<Rightarrow> ms)
           in (None, s\<lparr>markersByEditorId := (markersByEditorId s)
                 (editor_id ed \<mapsto> AList.update (toPropertyKey row) m ms)\<rparr>)))"

text \<open>The result is \<open>null\<close> or \<open>undefined\<close> (both \<open>None\<close>) or the marker.\<close>

definition getMarkerAtRow :: "jsval \<Rightarrow> state \<Rightarrow> exn + marker option" where
  "getMarkerAtRow row s =
     (case activeEditor s of
        None \<Rightarrow> Inl TypeError
      | Some ed \<Rightarrow>
          (case markersByEditorId s (editor_id ed) of
             None \<Rightarrow> Inr None
           | Some ms \<Rightarrow> Inr (map_of ms (toPropertyKey row))))"

section \<open>Presentation\<close>

fun join :: "string \<Rightarrow> string list \<Rightarrow> string" where
  "join sep [] = []"
| "join sep [x] = x"
| "join sep (x # y # ys) = x @ sep @ join sep (y # ys)"

definition getReasonsForError :: "group \<Rightarrow> string list" where
  "getReasonsForError error =
     map (\<lambda>el. number_to_string (character el) @ '': '' @ reason el) error"

text \<open>\<open>addReasons\<close> replaces the tooltip of the gutter row. The handler it registers on
  the marker, which removes the tooltip when the marker changes or is destroyed, belongs
  to the host's marker and is not represented.\<close>

definition addReasons :: "marker \<Rightarrow> group \<Rightarrow> state \<Rightarrow> outcome" where
  "addReasons m error s =
     (case getRowForError error of
        Inl e \<Rightarrow> (Some e, s)
      | Inr row \<Rightarrow>
          (let reasons = ''<div class=\"jshint-errors\">''
                 @ join ''<br />'' (getReasonsForError error) @ ''</div>''
           in (None, s\<lparr>calls := calls s @ [TooltipDestroyed row, TooltipSet row reasons]\<rparr>)))"

definition displayError :: "group \<Rightarrow> state \<Rightarrow> outcome" where
  "displayError error s =
     (case getRowForError error of
        Inl e \<Rightarrow> (Some e, s)
      | Inr row \<Rightarrow>
          (case getMarkerAtRow (JNumber row) s of
             Inl e \<Rightarrow> (Some e, s)
           | Inr (Some _) \<Rightarrow> (None, s)
           | Inr None \<Rightarrow>
               (case activeEditor s of
                  None \<Rightarrow> (Some TypeError, s)
                | Some ed \<Rightarrow>
                    (let (m, s1) = markBufferRange ed row s;
                         s2 = decorateMarker m ''line'' ''jshint-line'' s1;
                         s3 = decorateMarker m ''gutter'' ''jshint-line-number'' s2
                     in and_then (saveMarker m (JNumber row) s3) (addReasons m error)))))"

text \<open>The status bar, when there is one, is represented by the list of its
  \<open>#jshint-statusbar\<close> elements: \<open>find('#jshint-statusbar').remove()\<close> empties the list
  and \<open>appendLeft\<close> puts an element in front.\<close>

definition remove_summary :: "state \<Rightarrow> state" where
  "remove_summary s = s\<lparr>statusBar := map_option (\<lambda>els. []) (statusBar s)\<rparr>"

definition appendLeft :: "string \<Rightarrow> state \<Rightarrow> state" where
  "appendLeft html s = s\<lparr>statusBar := map_option (\<lambda>els. html # els) (statusBar s)\<rparr>"

text \<open>In \<open>updateStatusbar\<close>, \<open>line\<close> is the cursor's row plus one, and indexes the array
  stored under the editor by \<open>lint\<close>. Reading \<open>error[0]\<close> of \<open>undefined\<close>, or \<open>error.line\<close>
  of the \<open>undefined\<close> first element of an empty group, raises.\<close>

definition statusbar_html :: "diagnostic \<Rightarrow> string" where
  "statusbar_html error =
     ''<span id=\"jshint-statusbar\" class=\"inline-block\">JSHint ''
       @ decimal (line error) @ '':'' @ number_to_string (character error)
       @ '' '' @ reason error @ ''</span>''"

definition updateStatusbar :: "state \<Rightarrow> outcome" where
  "updateStatusbar s =
     (case statusBar s of
        None \<Rightarrow> (None, s)
      | Some _ \<Rightarrow>
          (let s1 = remove_summary s
           in (case activeEditor s1 of
                 None \<Rightarrow> (None, s1)
               | Some ed \<Rightarrow>
                   (case errorsByEditorId s1 (editor_id ed) of
                      None \<Rightarrow> (None, s1)
                    | Some errs \<Rightarrow>
                        (let l = cursor_row ed + 1;
                             error = (case array_get errs l of
                                        Some g \<Rightarrow> Some g
                                      | None \<Rightarrow> lodash_first (lodash_compact errs))
                         in (case error of
                               None \<Rightarrow> (Some TypeError, s1)
                             | Some [] \<Rightarrow> (Some TypeError, s1)
                             | Some (e # _) \<Rightarrow>
                                 (None, appendLeft (statusbar_html e) s1)))))))"

definition displayErrors :: "group list \<Rightarrow> state \<Rightarrow> outcome" where
  "displayErrors errors s =
     and_then (and_then (clearOldMarkers errors s) updateStatusbar) (each displayError errors)"

section \<open>The lint pass\<close>

definition removeMarkersForEditorId :: "nat \<Rightarrow> state \<Rightarrow> state" where
  "removeMarkersForEditorId i s = s\<lparr>markersByEditorId := (markersByEditorId s)(i := None)\<rparr>"

definition removeErrorsForEditorId :: "nat \<Rightarrow> state \<Rightarrow> state" where
  "removeErrorsForEditorId i s = s\<lparr>errorsByEditorId := (errorsByEditorId s)(i := None)\<rparr>"

text \<open>The body of the loop that aggregates same-line errors, and the loop.\<close>

definition aggregate_step :: "group option list \<Rightarrow> diagnostic \<Rightarrow> group option list" where
  "aggregate_step ret el =
     (let l = line el
      in (case array_get ret l of
            Some g \<Rightarrow> array_set ret l (lodash_sortBy (g @ [el]) character)
          | None \<Rightarrow> array_set ret l [el]))"

definition aggregate :: "diagnostic list \<Rightarrow> group option list" where
  "aggregate errors = foldl aggregate_step [] errors"

definition select_linter :: "state \<Rightarrow> linter" where
  "select_linter s = (if supportLintingJsx s \<or> transformJsx s then JSXHINT else JSHINT)"

text \<open>
  \<open>loadConfig\<close> and the two engines are external: they are parameters, and may throw.
  The engine's result is the content of its \<open>errors\<close> slot, which may hold \<open>null\<close>.
\<close>

definition lint ::
  "(string \<Rightarrow> exn + config) \<Rightarrow>
   (linter \<Rightarrow> string \<Rightarrow> config \<Rightarrow> (string \<times> bool) list option \<Rightarrow> exn + diagnostic option list) \<Rightarrow>
   state \<Rightarrow> outcome" where
  "lint loadConfig engine s =
     (case activeEditor s of
        None \<Rightarrow> (None, s)
      | Some ed \<Rightarrow>
          if grammar_name ed \<notin> set [''JavaScript'', ''JavaScript (JSX)'']
          then (None, s)
          else
            (let file = uri ed;
                 (cfg, s1) =
                   (case file of
                      None \<Rightarrow> (Inr empty_config, s)
                    | Some f \<Rightarrow>
                        if f = [] then (Inr empty_config, s)
                        else (loadConfig f, s\<lparr>calls := calls s @ [ConfigLoaded f]\<rparr>))
             in (case cfg of
                   Inl e \<Rightarrow> (Some e, s1)
                 | Inr c \<Rightarrow>
                     (let l = select_linter s1;
                          s2 = s1\<lparr>calls := calls s1 @ [LinterInvoked l (buffer_text ed)]\<rparr>
                      in (case engine l (buffer_text ed) c (globals c) of
                            Inl e \<Rightarrow> (Some e, s2)
                          | Inr raw \<Rightarrow>
                              (let s3 = removeErrorsForEditorId (editor_id ed) s2;
                                   errors = lodash_compact raw
                               in if length errors > 0
                                  then
                                    (let ret = aggregate errors;
                                         s4 = s3\<lparr>errorsByEditorId :=
                                                (errorsByEditorId s3)(editor_id ed \<mapsto> ret)\<rparr>
                                     in displayErrors (lodash_compact ret) s4)
                                  else displayErrors [] s3))))))"

section \<open>Notions used to state the properties\<close>

text \<open>The configuration a pass uses: the resolver's result when the editor has a file
  path, the empty configuration otherwise.\<close>

definition config_for :: "(string \<Rightarrow> exn + config) \<Rightarrow> editor \<Rightarrow> exn + config" where
  "config_for loadConfig ed =
     (case uri ed of
        None \<Rightarrow> Inr empty_config
      | Some f \<Rightarrow> if f = [] then Inr empty_config else loadConfig f)"

definition supported_grammar :: "editor \<Rightarrow> bool" where
  "supported_grammar ed =
     (grammar_name ed = ''JavaScript'' \<or> grammar_name ed = ''JavaScript (JSX)'')"

fun is_marker_event :: "event \<Rightarrow> bool" where
  "is_marker_event (MarkerCreated _ _ _) = True"
| "is_marker_event (MarkerDestroyed _) = True"
| "is_marker_event _ = False"

fun linters_invoked :: "event list \<Rightarrow> linter list" where
  "linters_invoked [] = []"
| "linters_invoked (LinterInvoked l _ # evs) = l # linters_invoked evs"
| "linters_invoked (_ # evs) = linters_invoked evs"

text \<open>The row \<open>getRowForError\<close> gives a group whose first diagnostic is on line \<open>l\<close>.\<close>

definition row_of_line :: "nat \<Rightarrow> int" where
  "row_of_line l = (if l = 0 then 0 else int l - 1)"

text \<open>The marker object stored for an editor, read as a map from property names.\<close>

definition store_of :: "state \<Rightarrow> nat \<Rightarrow> string \<rightharpoonup> marker" where
  "store_of s i = (case markersByEditorId s i of None \<Rightarrow> Map.empty | Some ms \<Rightarrow> map_of ms)"

text \<open>The rows of the markers alive in the host for an editor, one entry per marker.\<close>

definition live_rows :: "state \<Rightarrow> nat \<Rightarrow> int list" where
  "live_rows s i = map (\<lambda>p. snd (snd p)) (filter (\<lambda>p. fst (snd p) = i) (liveMarkers s))"

text \<open>Every marker alive in the host for the editor is held by the store under the name
  of its row: the store has lost track of none.\<close>

definition no_leak :: "state \<Rightarrow> nat \<Rightarrow> bool" where
  "no_leak s i =
     (\<forall>p \<in> set (liveMarkers s).
        fst (snd p) = i \<longrightarrow> store_of s i (number_to_string (snd (snd p))) = Some (fst p))"

text \<open>What clearing and displaying markers leave alone.\<close>

definition same_context :: "state \<Rightarrow> state \<Rightarrow> bool" where
  "same_context s s' =
     (activeEditor s' = activeEditor s \<and> errorsByEditorId s' = errorsByEditorId s \<and>
      statusBar s' = statusBar s \<and> supportLintingJsx s' = supportLintingJsx s \<and>
      transformJsx s' = transformJsx s \<and>
      linters_invoked (calls s') = linters_invoked (calls s))"

text \<open>The invariant of the loop that displays the groups.\<close>

definition tracked :: "state \<Rightarrow> nat \<Rightarrow> bool" where
  "tracked s i =
     (no_leak s i \<and> distinct (live_rows s i) \<and>
      dom (store_of s i) = number_to_string ` set (live_rows s i))"

text \<open>The errors stored for the active editor, if any, hold a group, and no group is
  empty; \<open>lint\<close> stores nothing else.\<close>

definition well_grouped :: "state \<Rightarrow> bool" where
  "well_grouped s =
     (case activeEditor s of
        None \<Rightarrow> True
      | Some ed \<Rightarrow>
          (case errorsByEditorId s (editor_id ed) of
             None \<Rightarrow> True
           | Some errs \<Rightarrow>
               lodash_compact errs \<noteq> [] \<and> (\<forall>g \<in> set (lodash_compact errs). g \<noteq> [])))"

subsection \<open>Concrete editors, states and collaborators\<close>

definition js_editor :: editor where
  "js_editor = \<lparr>editor_id = 7, grammar_name = ''JavaScript'', uri = None,
     buffer_text = ''var a'', cursor_row = 3\<rparr>"

definition coffee_editor :: editor where
  "coffee_editor = js_editor\<lparr>grammar_name := ''CoffeeScript''\<rparr>"

definition fresh_state :: state where
  "fresh_state = \<lparr>markersByEditorId = Map.empty, errorsByEditorId = Map.empty,
     activeEditor = Some js_editor, supportLintingJsx = False, transformJsx = False,
     statusBar = Some [], liveMarkers = [], nextMarker = 0, calls = []\<rparr>"

definition no_config :: "string \<Rightarrow> exn + config" where
  "no_config f = Inr empty_config"

definition failing_engine ::
  "linter \<Rightarrow> string \<Rightarrow> config \<Rightarrow> (string \<times> bool) list option \<Rightarrow> exn + diagnostic option list" where
  "failing_engine l txt c g = Inl (Thrown ''engine'')"

definition semicolon :: diagnostic where
  "semicolon = \<lparr>line = 3, character = 4, reason = ''Missing semicolon''\<rparr>"

definition unused :: diagnostic where
  "unused = \<lparr>line = 6, character = 1, reason = ''Unused variable''\<rparr>"

definition late :: diagnostic where
  "late = \<lparr>line = 3, character = 9, reason = ''Unexpected token''\<rparr>"

definition bad_option :: diagnostic where
  "bad_option = \<lparr>line = 0, character = 0, reason = ''Bad option''\<rparr>"

definition sample_raw :: "diagnostic option list" where
  "sample_raw = [Some late, None, Some unused, Some semicolon]"

definition sample_engine ::
  "linter \<Rightarrow> string \<Rightarrow> config \<Rightarrow> (string \<times> bool) list option \<Rightarrow> exn + diagnostic option list" where
  "sample_engine l txt c g = Inr sample_raw"

definition silent_engine ::
  "linter \<Rightarrow> string \<Rightarrow> config \<Rightarrow> (string \<times> bool) list option \<Rightarrow> exn + diagnostic option list" where
  "silent_engine l txt c g = Inr [None]"

text \<open>A state whose store holds one marker, on row 9.\<close>

definition stale_state :: state where
  "stale_state = fresh_state\<lparr>markersByEditorId := [7 \<mapsto> [(''9'', 0)]],
     liveMarkers := [(0, 7, 9)], nextMarker := 1\<rparr>"

text \<open>The states after one and after two passes with the same diagnostics.\<close>

definition once_linted :: state where
  "once_linted = snd (lint no_config sample_engine fresh_state)"

definition twice_linted :: state where
  "twice_linted = snd (lint no_config sample_engine once_linted)"

text \<open>Groups on rows 2 and 5 (lines 3 and 6), the cursor on row 3.\<close>

definition summary_state :: state where
  "summary_state = fresh_state\<lparr>errorsByEditorId := [7 \<mapsto> aggregate [semicolon, unused]],
     statusBar := Some [''stale summary'']\<rparr>"

definition no_editor_state :: state where
  "no_editor_state = fresh_state\<lparr>activeEditor := None\<rparr>"

definition jsx_state :: state where
  "jsx_state = fresh_state\<lparr>transformJsx := True\<rparr>"

section \<open>Rendering numbers\<close>

lemma below_ten:
  "(a::nat) < 10 \<Longrightarrow>
   a = 0 \<or> a = 1 \<or> a = 2 \<or> a = 3 \<or> a = 4 \<or> a = 5 \<or> a = 6 \<or> a = 7 \<or> a = 8 \<or> a = 9"
  by arith

lemma digit_char_not_minus: "a < 10 \<Longrightarrow> digit_char a \<noteq> CHR ''-''"
proof -
  assume "a < 10"
  from below_ten [OF this] show ?thesis
    unfolding digit_char_def by (elim disjE; simp)
qed

lemma digit_char_inj: "a < 10 \<Longrightarrow> b < 10 \<Longrightarrow> digit_char a = digit_char b \<Longrightarrow> a = b"
proof -
  assume "a < 10" and "b < 10" and eq: "digit_char a = digit_char b"
  from below_ten [OF \<open>a < 10\<close>] below_ten [OF \<open>b < 10\<close>] eq show ?thesis
    unfolding digit_char_def by (elim disjE; simp)
qed

lemma decimal_nonempty: "decimal n \<noteq> []"
  by (subst decimal.simps) simp

lemma decimal_hd_not_minus: "hd (decimal n) \<noteq> CHR ''-''"
proof (induction n rule: decimal.induct)
  case (1 n)
  show ?case
  proof (cases "n < 10")
    case True
    then show ?thesis by (subst decimal.simps) (simp add: digit_char_not_minus)
  next
    case False
    with 1 show ?thesis
      by (subst decimal.simps) (simp add: decimal_nonempty)
  qed
qed

lemma decimal_inj: "decimal a = decimal b \<Longrightarrow> a = b"
proof (induction a arbitrary: b rule: decimal.induct)
  case (1 n)
  show ?case
  proof (cases "n < 10")
    case small: True
    show ?thesis
    proof (cases "b < 10")
      case True
      with small 1(2) show ?thesis
        by (simp add: decimal.simps [of n] decimal.simps [of b] digit_char_inj)
    next
      case False
      with small 1(2) show ?thesis
        by (simp add: decimal.simps [of n] decimal.simps [of b] decimal_nonempty [THEN not_sym])
    qed
  next
    case big: False
    show ?thesis
    proof (cases "b < 10")
      case True
      with big 1(2) show ?thesis
        by (simp add: decimal.simps [of n] decimal.simps [of b] decimal_nonempty)
    next
      case False
      with big 1(2) have "decimal (n div 10) = decimal (b div 10)"
        and "digit_char (n mod 10) = digit_char (b mod 10)"
        by (simp_all add: decimal.simps [of n] decimal.simps [of b])
      with big 1(1) have "n div 10 = b div 10" and "n mod 10 = b mod 10"
        by (auto intro: digit_char_inj)
      then show ?thesis
        by (metis div_mult_mod_eq)
    qed
  qed
qed

lemma number_to_string_inj: "number_to_string a = number_to_string b \<Longrightarrow> a = b"
proof -
  assume eq: "number_to_string a = number_to_string b"
  have neg: "\<And>x y. CHR ''-'' # decimal x \<noteq> decimal y"
    using decimal_hd_not_minus decimal_nonempty by (metis list.sel(1))
  show ?thesis
  proof (cases "a < 0")
    case True
    show ?thesis
    proof (cases "b < 0")
      case True
      with \<open>a < 0\<close> eq have "nat (- a) = nat (- b)"
        by (simp add: number_to_string_def decimal_inj)
      with True \<open>a < 0\<close> show ?thesis by simp
    next
      case False
      with \<open>a < 0\<close> eq neg show ?thesis by (simp add: number_to_string_def)
    qed
  next
    case False
    show ?thesis
    proof (cases "b < 0")
      case True
      with \<open>\<not> a < 0\<close> eq neg [of "nat (- b)" "nat a"] show ?thesis
        by (simp add: number_to_string_def)
    next
      case False
      with \<open>\<not> a < 0\<close> eq have "nat a = nat b"
        by (simp add: number_to_string_def decimal_inj)
      with False \<open>\<not> a < 0\<close> show ?thesis by simp
    qed
  qed
qed

section \<open>Properties of the aggregation\<close>

lemma array_get_set: "array_get (array_set xs i v) j = (if j = i then Some v else array_get xs j)"
  by (auto simp: array_get_def array_set_def nth_append)

lemma sort_key_resort:
  "sort_key f (sort_key f xs @ [x]) = sort_key f (xs @ [x])"
proof (rule properties_for_sort_key)
  show "mset (sort_key f (xs @ [x])) = mset (sort_key f xs @ [x])"
    by simp
  show "sorted (map f (sort_key f (xs @ [x])))"
    by simp
next
  fix k
  have "filter (\<lambda>y. f y = f k) (sort_key f (xs @ [x])) = filter (\<lambda>y. f y = f k) (xs @ [x])"
    by (rule sort_key_stable)
  moreover have "filter (\<lambda>y. f y = f k) (sort_key f xs) = filter (\<lambda>y. f y = f k) xs"
    by (rule sort_key_stable)
  ultimately have "filter (\<lambda>y. f y = f k) (sort_key f (xs @ [x]))
      = filter (\<lambda>y. f y = f k) (sort_key f xs @ [x])"
    by simp
  then show "filter (\<lambda>y. f k = f y) (sort_key f (xs @ [x]))
      = filter (\<lambda>y. f k = f y) (sort_key f xs @ [x])"
    by (simp add: eq_commute [of "f k"])
qed

lemma aggregate_snoc: "aggregate (ds @ [d]) = aggregate_step (aggregate ds) d"
  by (simp add: aggregate_def)

lemma aggregate_empty: "aggregate [] = []"
  by (simp add: aggregate_def)

lemma aggregate_get:
  "array_get (aggregate ds) l =
     (if filter (\<lambda>d. line d = l) ds = [] then None
      else Some (sort_key character (filter (\<lambda>d. line d = l) ds)))"
proof (induction ds rule: rev_induct)
  case Nil
  show ?case by (simp add: aggregate_def array_get_def)
next
  case (snoc d ds)
  show ?case
  proof (cases "line d = l")
    case True
    with snoc show ?thesis
      by (simp add: aggregate_snoc aggregate_step_def array_get_set lodash_sortBy_def
          sort_key_resort Let_def)
  next
    case False
    with snoc show ?thesis
      by (simp add: aggregate_snoc aggregate_step_def array_get_set Let_def
          split: option.split)
  qed
qed

lemma compact_set: "set (lodash_compact xs) = {x. Some x \<in> set xs}"
  by (induction xs rule: lodash_compact.induct) auto

lemma in_set_array_get: "Some x \<in> set xs \<longleftrightarrow> (\<exists>i. array_get xs i = Some x)"
  by (auto simp: array_get_def in_set_conv_nth)

lemma sort_key_empty_iff: "sort_key f xs = [] \<longleftrightarrow> xs = []"
  by (metis length_sort length_0_conv)

lemma aggregate_groups:
  "g \<in> set (lodash_compact (aggregate ds)) \<longleftrightarrow>
     (\<exists>l. g = sort_key character (filter (\<lambda>d. line d = l) ds) \<and> g \<noteq> [])"
  by (auto simp: compact_set in_set_array_get aggregate_get sort_key_empty_iff split: if_splits)

lemma aggregate_nonempty: "ds \<noteq> [] \<Longrightarrow> lodash_compact (aggregate ds) \<noteq> []"
proof -
  assume "ds \<noteq> []"
  then obtain d where "d \<in> set ds" by (cases ds) auto
  then have "filter (\<lambda>e. line e = line d) ds \<noteq> []"
    by (auto simp: filter_empty_conv)
  then have "sort_key character (filter (\<lambda>e. line e = line d) ds) \<in> set (lodash_compact (aggregate ds))"
    by (subst aggregate_groups) (auto simp: sort_key_empty_iff)
  then show ?thesis by auto
qed

lemma array_get_compact:
  "array_get xs i = Some g \<Longrightarrow> g \<in> set (lodash_compact xs)"
  using in_set_array_get [of g xs] by (auto simp: compact_set)

lemma group_head_line:
  assumes "g \<in> set (lodash_compact (aggregate ds))"
  shows "g \<noteq> [] \<and> (\<forall>d \<in> set g. d \<in> set ds \<and> line d = line (hd g))"
proof -
  from assms obtain l where g: "g = sort_key character (filter (\<lambda>d. line d = l) ds)"
    and ne: "g \<noteq> []"
    by (auto simp: aggregate_groups)
  from g have in_g: "\<And>d. d \<in> set g \<Longrightarrow> d \<in> set ds \<and> line d = l"
    by simp
  from ne have "hd g \<in> set g" by simp
  with in_g have "line (hd g) = l" by blast
  with in_g ne show ?thesis by simp
qed

text \<open>
  C3, as stated, fails: the array is indexed by \<open>line\<close>, not by \<open>line - 1\<close>. A diagnostic
  on line 3 is stored at index 3 and index 2 is a hole; a configuration error (line 0) is
  stored at index 0, and the row computed for its group is 0, not -1.
\<close>

theorem aggregate_not_keyed_by_row:
  "array_get (aggregate [semicolon]) (line semicolon - 1) = None \<and>
   array_get (aggregate [semicolon]) (line semicolon) = Some [semicolon] \<and>
   array_get (aggregate [bad_option]) 0 = Some [bad_option] \<and>
   getRowForError [bad_option] = Inr 0"
  by code_simp

lemma getRowForError_hd: "g \<noteq> [] \<Longrightarrow> getRowForError g = Inr (row_of_line (line (hd g)))"
  by (cases g) (auto simp: row_of_line_def Let_def)

text \<open>
  C3, amended. Every diagnostic is in the group stored at the index equal to its own
  \<open>line\<close> (0 for a configuration error). The 0-based row is computed from the group
  only when its marker is placed: \<open>line - 1\<close>, and 0 for line 0.
\<close>

theorem aggregate_keyed_by_line:
  assumes "d \<in> set ds"
  shows "\<exists>g. array_get (aggregate ds) (line d) = Some g \<and> d \<in> set g \<and>
           getRowForError g = Inr (row_of_line (line d))"
proof -
  let ?g = "sort_key character (filter (\<lambda>e. line e = line d) ds)"
  from assms have ne: "filter (\<lambda>e. line e = line d) ds \<noteq> []"
    by (auto simp: filter_empty_conv)
  then have get: "array_get (aggregate ds) (line d) = Some ?g"
    by (simp add: aggregate_get)
  from ne have g: "?g \<noteq> []"
    by (simp add: sort_key_empty_iff)
  then have "hd ?g \<in> set ?g" by (rule hd_in_set)
  then have "line (hd ?g) = line d" by simp
  with getRowForError_hd [OF g] have "getRowForError ?g = Inr (row_of_line (line d))"
    by simp
  with get assms show ?thesis by simp
qed

theorem aggregate_keyed_by_line_witness:
  "semicolon \<in> set [late, bad_option, semicolon] \<and>
   (\<exists>g. array_get (aggregate [late, bad_option, semicolon]) (line semicolon) = Some g \<and>
        semicolon \<in> set g \<and> getRowForError g = Inr 2)"
proof -
  have "semicolon \<in> set [late, bad_option, semicolon]" by simp
  moreover have "row_of_line (line semicolon) = 2" by code_simp
  ultimately show ?thesis
    using aggregate_keyed_by_line [of semicolon "[late, bad_option, semicolon]"] by simp
qed

section \<open>Properties of the marker store\<close>

lemma linters_invoked_append:
  "linters_invoked (xs @ ys) = linters_invoked xs @ linters_invoked ys"
  by (induction xs rule: linters_invoked.induct) auto

lemma same_context_refl: "same_context s s"
  by (simp add: same_context_def)

lemma same_context_trans: "same_context s s1 \<Longrightarrow> same_context s1 s2 \<Longrightarrow> same_context s s2"
  by (simp add: same_context_def)

lemma destroy_step:
  assumes "activeEditor s = Some ed"
  shows "\<exists>s'. destroyMarkerAtRow (JString k) s = (None, s') \<and> same_context s s' \<and>
           store_of s' (editor_id ed) = (store_of s (editor_id ed))(k := None) \<and>
           set (liveMarkers s') \<subseteq> set (liveMarkers s) \<and>
           (\<forall>p \<in> set (liveMarkers s'). store_of s (editor_id ed) k \<noteq> Some (fst p))"
proof (cases "markersByEditorId s (editor_id ed)")
  case None
  with assms show ?thesis
    by (simp add: destroyMarkerAtRow_def same_context_def store_of_def)
next
  case (Some ms)
  show ?thesis
  proof (cases "map_of ms k")
    case None
    with Some assms show ?thesis
      by (auto simp: destroyMarkerAtRow_def same_context_def store_of_def)
  next
    case (Some m)
    with \<open>markersByEditorId s (editor_id ed) = Some ms\<close> assms show ?thesis
      by (auto simp: destroyMarkerAtRow_def same_context_def store_of_def marker_destroy_def
          Let_def linters_invoked_append AList.delete_conv')
  qed
qed

lemma clear_loop:
  assumes "activeEditor s = Some ed"
  shows "\<exists>s'. each (\<lambda>row s'. if \<not> lodash_contains (map JNumber rows) row
                           then destroyMarkerAtRow row s' else (None, s'))
                (map JString ks) s = (None, s') \<and> same_context s s' \<and>
           store_of s' (editor_id ed) = (\<lambda>k. if k \<in> set ks then None else store_of s (editor_id ed) k) \<and>
           set (liveMarkers s') \<subseteq> set (liveMarkers s) \<and>
           (\<forall>p \<in> set (liveMarkers s'). \<forall>k \<in> set ks. store_of s (editor_id ed) k \<noteq> Some (fst p))"
  using assms
proof (induction ks arbitrary: s)
  case Nil
  then show ?case by (simp add: same_context_refl)
next
  case (Cons k ks)
  from destroy_step [OF Cons.prems, of k] obtain s1 where
    d: "destroyMarkerAtRow (JString k) s = (None, s1)" and c1: "same_context s s1"
    and st1: "store_of s1 (editor_id ed) = (store_of s (editor_id ed))(k := None)"
    and l1: "set (liveMarkers s1) \<subseteq> set (liveMarkers s)"
    and n1: "\<forall>p \<in> set (liveMarkers s1). store_of s (editor_id ed) k \<noteq> Some (fst p)"
    by blast
  from c1 Cons.prems have a1: "activeEditor s1 = Some ed"
    by (simp add: same_context_def)
  from Cons.IH [OF a1] obtain s2 where
    e: "each (\<lambda>row s'. if \<not> lodash_contains (map JNumber rows) row
                           then destroyMarkerAtRow row s' else (None, s'))
                (map JString ks) s1 = (None, s2)" and c2: "same_context s1 s2"
    and st2: "store_of s2 (editor_id ed) = (\<lambda>k. if k \<in> set ks then None else store_of s1 (editor_id ed) k)"
    and l2: "set (liveMarkers s2) \<subseteq> set (liveMarkers s1)"
    and n2: "\<forall>p \<in> set (liveMarkers s2). \<forall>k \<in> set ks. store_of s1 (editor_id ed) k \<noteq> Some (fst p)"
    by blast
  have notin: "\<not> lodash_contains (map JNumber rows) (JString k)"
    by (auto simp: lodash_contains_def)
  have "each (\<lambda>row s'. if \<not> lodash_contains (map JNumber rows) row
                           then destroyMarkerAtRow row s' else (None, s'))
                (map JString (k # ks)) s = (None, s2)"
    using d e notin by (simp add: and_then_def)
  moreover have "same_context s s2"
    using c1 c2 by (rule same_context_trans)
  moreover have "store_of s2 (editor_id ed)
      = (\<lambda>k'. if k' \<in> set (k # ks) then None else store_of s (editor_id ed) k')"
    using st1 st2 by (auto simp: fun_eq_iff)
  moreover have "set (liveMarkers s2) \<subseteq> set (liveMarkers s)"
    using l1 l2 by blast
  moreover have "\<forall>p \<in> set (liveMarkers s2). \<forall>k' \<in> set (k # ks).
      store_of s (editor_id ed) k' \<noteq> Some (fst p)"
  proof (intro ballI)
    fix p k'
    assume p: "p \<in> set (liveMarkers s2)" and k': "k' \<in> set (k # ks)"
    show "store_of s (editor_id ed) k' \<noteq> Some (fst p)"
    proof (cases "k' = k")
      case True
      with p l2 n1 show ?thesis by blast
    next
      case False
      with k' have "k' \<in> set ks" by simp
      with n2 p have "store_of s1 (editor_id ed) k' \<noteq> Some (fst p)" by blast
      with st1 False show ?thesis by simp
    qed
  qed
  ultimately show ?case by blast
qed

lemma rows_of_ok: "(\<forall>g \<in> set gs. g \<noteq> []) \<Longrightarrow> \<exists>rows. rows_of gs = Inr rows"
proof (induction gs)
  case Nil
  then show ?case by simp
next
  case (Cons g gs)
  then obtain rows where "rows_of gs = Inr rows" by auto
  moreover from Cons.prems obtain d ds where "g = d # ds" by (cases g) auto
  ultimately show ?case by (simp add: Let_def)
qed

lemma store_keys: "store_of s i k = Some m \<Longrightarrow> activeEditor s = Some ed \<Longrightarrow> i = editor_id ed
  \<Longrightarrow> k \<in> fst ` set (getMarkersForEditor s)"
  by (auto simp: store_of_def getMarkersForEditor_def split: option.splits dest: map_of_SomeD intro: rev_image_eqI)

lemma clearOldMarkers_clears:
  assumes act: "activeEditor s = Some ed" and rows: "rows_of errors = Inr rows"
  shows "\<exists>s'. clearOldMarkers errors s = (None, s') \<and> same_context s s' \<and>
           store_of s' (editor_id ed) = Map.empty \<and>
           set (liveMarkers s') \<subseteq> set (liveMarkers s) \<and>
           (no_leak s (editor_id ed) \<longrightarrow> live_rows s' (editor_id ed) = [])"
proof -
  let ?ks = "map fst (getMarkersForEditor s)"
  have keys: "lodash_keys (getMarkersForEditor s) = map JString ?ks"
    by (simp add: lodash_keys_def)
  from clear_loop [OF act, of rows ?ks] obtain s' where
    e: "each (\<lambda>row s'. if \<not> lodash_contains (map JNumber rows) row
                           then destroyMarkerAtRow row s' else (None, s'))
                (map JString ?ks) s = (None, s')" and c: "same_context s s'"
    and st: "store_of s' (editor_id ed) = (\<lambda>k. if k \<in> set ?ks then None else store_of s (editor_id ed) k)"
    and l: "set (liveMarkers s') \<subseteq> set (liveMarkers s)"
    and n: "\<forall>p \<in> set (liveMarkers s'). \<forall>k \<in> set ?ks. store_of s (editor_id ed) k \<noteq> Some (fst p)"
    by blast
  have "clearOldMarkers errors s = (None, s')"
    using rows e keys by (simp add: clearOldMarkers_def Let_def)
  moreover have "store_of s' (editor_id ed) = Map.empty"
  proof
    fix k
    show "store_of s' (editor_id ed) k = None"
    proof (cases "store_of s (editor_id ed) k")
      case None
      with st show ?thesis by simp
    next
      case (Some m)
      from store_keys [OF this act refl] st show ?thesis by simp
    qed
  qed
  moreover have "no_leak s (editor_id ed) \<longrightarrow> live_rows s' (editor_id ed) = []"
  proof
    assume nl: "no_leak s (editor_id ed)"
    have "\<And>p. p \<in> set (liveMarkers s') \<Longrightarrow> fst (snd p) \<noteq> editor_id ed"
    proof
      fix p
      assume p: "p \<in> set (liveMarkers s')" and i: "fst (snd p) = editor_id ed"
      with l nl have h: "store_of s (editor_id ed) (number_to_string (snd (snd p))) = Some (fst p)"
        by (auto simp: no_leak_def)
      from store_keys [OF h act refl] have "number_to_string (snd (snd p)) \<in> set ?ks"
        by simp
      with n p h show False by blast
    qed
    then show "live_rows s' (editor_id ed) = []"
      by (auto simp: live_rows_def filter_empty_conv)
  qed
  ultimately show ?thesis using c l by blast
qed

lemma getMarkerAtRow_store:
  "activeEditor s = Some ed \<Longrightarrow>
   getMarkerAtRow (JNumber r) s = Inr (store_of s (editor_id ed) (number_to_string r))"
  by (simp add: getMarkerAtRow_def store_of_def split: option.splits)

lemma displayError_keep:
  assumes "activeEditor s = Some ed" and "getRowForError g = Inr r"
    and "store_of s (editor_id ed) (number_to_string r) = Some m"
  shows "displayError g s = (None, s)"
  using assms by (simp add: displayError_def getMarkerAtRow_store)

lemma displayError_create:
  assumes "activeEditor s = Some ed" and "getRowForError g = Inr r"
    and "store_of s (editor_id ed) (number_to_string r) = None"
  shows "\<exists>s'. displayError g s = (None, s') \<and> same_context s s' \<and>
           liveMarkers s' = liveMarkers s @ [(nextMarker s, editor_id ed, r)] \<and>
           store_of s' (editor_id ed)
             = (store_of s (editor_id ed))(number_to_string r \<mapsto> nextMarker s)"
  using assms
  by (auto simp: displayError_def getMarkerAtRow_store markBufferRange_def decorateMarker_def
      saveMarker_def addReasons_def and_then_def Let_def same_context_def store_of_def
      linters_invoked_append AList.update_conv' split: option.splits)

lemma displayError_step:
  assumes act: "activeEditor s = Some ed" and row: "getRowForError g = Inr r"
    and inv: "tracked s (editor_id ed)"
  shows "\<exists>s'. displayError g s = (None, s') \<and> same_context s s' \<and>
           tracked s' (editor_id ed) \<and>
           set (live_rows s' (editor_id ed)) = insert r (set (live_rows s (editor_id ed)))"
proof (cases "store_of s (editor_id ed) (number_to_string r)")
  case (Some m)
  then have "number_to_string r \<in> dom (store_of s (editor_id ed))" by blast
  with inv obtain r' where "r' \<in> set (live_rows s (editor_id ed))"
    and "number_to_string r = number_to_string r'"
    by (auto simp: tracked_def)
  then have "r \<in> set (live_rows s (editor_id ed))"
    by (auto dest: number_to_string_inj)
  with displayError_keep [OF act row Some] inv show ?thesis
    by (auto simp: same_context_refl)
next
  case None
  let ?i = "editor_id ed"
  from displayError_create [OF act row None] obtain s' where
    d: "displayError g s = (None, s')" and c: "same_context s s'"
    and l: "liveMarkers s' = liveMarkers s @ [(nextMarker s, ?i, r)]"
    and st: "store_of s' ?i = (store_of s ?i)(number_to_string r \<mapsto> nextMarker s)"
    by blast
  from l have rows: "live_rows s' ?i = live_rows s ?i @ [r]"
    by (simp add: live_rows_def)
  from None inv have fresh: "r \<notin> set (live_rows s ?i)"
    by (auto simp: tracked_def)
  have old: "\<And>p. p \<in> set (liveMarkers s) \<Longrightarrow> fst (snd p) = ?i \<Longrightarrow>
      number_to_string (snd (snd p)) \<noteq> number_to_string r"
  proof -
    fix p
    assume "p \<in> set (liveMarkers s)" and "fst (snd p) = ?i"
    with inv have "store_of s ?i (number_to_string (snd (snd p))) = Some (fst p)"
      by (auto simp: tracked_def no_leak_def)
    with None show "number_to_string (snd (snd p)) \<noteq> number_to_string r"
      by auto
  qed
  have "no_leak s' ?i"
    unfolding no_leak_def
  proof (intro ballI impI)
    fix p
    assume p: "p \<in> set (liveMarkers s')" and i: "fst (snd p) = ?i"
    show "store_of s' ?i (number_to_string (snd (snd p))) = Some (fst p)"
    proof (cases "p \<in> set (liveMarkers s)")
      case True
      with inv i have "store_of s ?i (number_to_string (snd (snd p))) = Some (fst p)"
        by (auto simp: tracked_def no_leak_def)
      with old [OF True i] st show ?thesis by simp
    next
      case False
      with p l have "p = (nextMarker s, ?i, r)" by simp
      with st show ?thesis by simp
    qed
  qed
  moreover have "distinct (live_rows s' ?i)"
    using rows fresh inv by (simp add: tracked_def)
  moreover have "dom (store_of s' ?i) = number_to_string ` set (live_rows s' ?i)"
    using st rows inv by (auto simp: tracked_def)
  ultimately have "tracked s' ?i"
    by (simp add: tracked_def)
  with d c rows show ?thesis by auto
qed

lemma display_loop:
  assumes "activeEditor s = Some ed" and "rows_of gs = Inr rows"
    and "tracked s (editor_id ed)"
  shows "\<exists>s'. each displayError gs s = (None, s') \<and> same_context s s' \<and>
           tracked s' (editor_id ed) \<and>
           set (live_rows s' (editor_id ed)) = set rows \<union> set (live_rows s (editor_id ed))"
  using assms
proof (induction gs arbitrary: s rows)
  case Nil
  then show ?case by (auto simp: same_context_refl)
next
  case (Cons g gs)
  from Cons.prems(2) obtain r rs where r: "getRowForError g = Inr r"
    and rs: "rows_of gs = Inr rs" and rows: "rows = r # rs"
    by (auto split: sum.splits)
  from displayError_step [OF Cons.prems(1) r Cons.prems(3)] obtain s1 where
    d: "displayError g s = (None, s1)" and c1: "same_context s s1"
    and t1: "tracked s1 (editor_id ed)"
    and l1: "set (live_rows s1 (editor_id ed)) = insert r (set (live_rows s (editor_id ed)))"
    by blast
  from c1 Cons.prems(1) have a1: "activeEditor s1 = Some ed"
    by (simp add: same_context_def)
  from Cons.IH [OF a1 rs t1] obtain s2 where
    e: "each displayError gs s1 = (None, s2)" and c2: "same_context s1 s2"
    and t2: "tracked s2 (editor_id ed)"
    and l2: "set (live_rows s2 (editor_id ed)) = set rs \<union> set (live_rows s1 (editor_id ed))"
    by blast
  have "each displayError (g # gs) s = (None, s2)"
    using d e by (simp add: and_then_def)
  moreover have "same_context s s2"
    using c1 c2 by (rule same_context_trans)
  moreover have "set (live_rows s2 (editor_id ed)) = set rows \<union> set (live_rows s (editor_id ed))"
    using l1 l2 rows by auto
  ultimately show ?case using t2 by blast
qed

lemma displayError_context:
  assumes "activeEditor s = Some ed" and "getRowForError g = Inr r"
  shows "\<exists>s'. displayError g s = (None, s') \<and> same_context s s'"
proof (cases "store_of s (editor_id ed) (number_to_string r)")
  case None
  from displayError_create [OF assms None] show ?thesis by blast
next
  case (Some m)
  from displayError_keep [OF assms Some] show ?thesis by (simp add: same_context_refl)
qed

lemma display_loop_context:
  assumes "activeEditor s = Some ed" and "rows_of gs = Inr rows"
  shows "\<exists>s'. each displayError gs s = (None, s') \<and> same_context s s'"
  using assms
proof (induction gs arbitrary: s rows)
  case Nil
  then show ?case by (simp add: same_context_refl)
next
  case (Cons g gs)
  from Cons.prems(2) obtain r rs where r: "getRowForError g = Inr r"
    and rs: "rows_of gs = Inr rs"
    by (auto split: sum.splits)
  from displayError_context [OF Cons.prems(1) r] obtain s1 where
    d: "displayError g s = (None, s1)" and c1: "same_context s s1"
    by blast
  from c1 Cons.prems(1) have "activeEditor s1 = Some ed"
    by (simp add: same_context_def)
  from Cons.IH [OF this rs] obtain s2 where
    "each displayError gs s1 = (None, s2)" and "same_context s1 s2"
    by blast
  with d c1 show ?case
    by (auto simp: and_then_def intro: same_context_trans)
qed

text \<open>
  C10. A group whose first diagnostic has line 0 is given row 0, the row of a group on
  line 1, and \<open>displayError\<close> places its marker on row 0 of the buffer.
\<close>

theorem config_error_marked_on_first_row:
  assumes "line d = 0"
  shows "getRowForError (d # g) = Inr 0 \<and>
         getRowForError (d # g) = getRowForError (d\<lparr>line := 1\<rparr> # g) \<and>
         (activeEditor s = Some ed \<and> getMarkerAtRow (JNumber 0) s = Inr None \<longrightarrow>
            liveMarkers (snd (displayError (d # g) s))
              = liveMarkers s @ [(nextMarker s, editor_id ed, 0)])"
proof -
  have r: "getRowForError (d # g) = Inr 0"
    using assms by simp
  have "activeEditor s = Some ed \<Longrightarrow> getMarkerAtRow (JNumber 0) s = Inr None \<Longrightarrow>
      liveMarkers (snd (displayError (d # g) s))
        = liveMarkers s @ [(nextMarker s, editor_id ed, 0)]"
  proof -
    assume act: "activeEditor s = Some ed" and "getMarkerAtRow (JNumber 0) s = Inr None"
    then have "store_of s (editor_id ed) (number_to_string 0) = None"
      by (simp add: getMarkerAtRow_store)
    from displayError_create [OF act r this] show ?thesis
      by auto
  qed
  with r show ?thesis by simp
qed

theorem config_error_marked_on_first_row_witness:
  "line bad_option = 0 \<and> getRowForError [bad_option] = Inr 0 \<and>
   getRowForError [bad_option] = getRowForError [bad_option\<lparr>line := 1\<rparr>] \<and>
   activeEditor fresh_state = Some js_editor \<and>
   getMarkerAtRow (JNumber 0) fresh_state = Inr None \<and>
   liveMarkers (snd (displayError [bad_option] fresh_state))
     = liveMarkers fresh_state @ [(nextMarker fresh_state, editor_id js_editor, 0)]"
proof -
  have l: "line bad_option = 0" by code_simp
  have a: "activeEditor fresh_state = Some js_editor" by code_simp
  have m: "getMarkerAtRow (JNumber 0) fresh_state = Inr None" by code_simp
  from config_error_marked_on_first_row [OF l, of "[]" fresh_state js_editor] l a m
  show ?thesis by simp
qed

text \<open>
  C9, as stated, fails: without an active editor \<open>destroyMarkerAtRow\<close> reads
  \<open>editor.id\<close> of \<open>undefined\<close> and raises a \<open>TypeError\<close>.
\<close>

theorem destroy_without_editor_raises:
  "fst (destroyMarkerAtRow (JString ''0'') no_editor_state) = Some TypeError"
  by code_simp

text \<open>
  C9, amended. Without an active editor, clearing old markers is a no-op (the markers of
  the editor are taken to be the empty object), and a lint pass returns before it
  reaches the store. The other operations of the store are only reached from a pass that
  has an editor: called without one, destroying, saving, looking up and displaying each
  raise a \<open>TypeError\<close> and change nothing.
\<close>

theorem store_operations_without_editor:
  assumes "activeEditor s = None"
  shows "((\<forall>g \<in> set errors. g \<noteq> []) \<longrightarrow> clearOldMarkers errors s = (None, s)) \<and>
         lint loadConfig engine s = (None, s) \<and>
         destroyMarkerAtRow row s = (Some TypeError, s) \<and>
         saveMarker m row s = (Some TypeError, s) \<and>
         getMarkerAtRow row s = Inl TypeError \<and>
         displayError (d # g) s = (Some TypeError, s)"
proof -
  have "(\<forall>g \<in> set errors. g \<noteq> []) \<longrightarrow> clearOldMarkers errors s = (None, s)"
  proof
    assume "\<forall>g \<in> set errors. g \<noteq> []"
    from rows_of_ok [OF this] obtain rows where "rows_of errors = Inr rows" by blast
    with assms show "clearOldMarkers errors s = (None, s)"
      by (simp add: clearOldMarkers_def getMarkersForEditor_def lodash_keys_def)
  qed
  moreover have "lint loadConfig engine s = (None, s)"
    using assms by (simp add: lint_def)
  moreover have "displayError (d # g) s = (Some TypeError, s)"
    using assms by (simp add: displayError_def getMarkerAtRow_def Let_def)
  ultimately show ?thesis
    using assms by (simp add: destroyMarkerAtRow_def saveMarker_def getMarkerAtRow_def)
qed

theorem store_operations_without_editor_witness:
  "activeEditor no_editor_state = None \<and> [semicolon] \<noteq> [] \<and>
   clearOldMarkers [[semicolon]] no_editor_state = (None, no_editor_state) \<and>
   lint no_config sample_engine no_editor_state = (None, no_editor_state) \<and>
   destroyMarkerAtRow (JString ''2'') no_editor_state = (Some TypeError, no_editor_state) \<and>
   saveMarker 0 (JNumber 2) no_editor_state = (Some TypeError, no_editor_state) \<and>
   getMarkerAtRow (JNumber 2) no_editor_state = Inl TypeError \<and>
   displayError [semicolon] no_editor_state = (Some TypeError, no_editor_state)"
proof -
  have a: "activeEditor no_editor_state = None" by code_simp
  from store_operations_without_editor
    [OF a, of "[[semicolon]]" no_config sample_engine "JString ''2''" 0 semicolon "[]"]
    store_operations_without_editor
    [OF a, of "[[semicolon]]" no_config sample_engine "JNumber 2" 0 semicolon "[]"]
    a show ?thesis
    by simp
qed

section \<open>Properties of the status bar\<close>

lemma updateStatusbar_runs:
  assumes "well_grouped s"
  shows "\<exists>sb. updateStatusbar s = (None, s\<lparr>statusBar := sb\<rparr>)"
proof (cases "statusBar s")
  case None
  then have "updateStatusbar s = (None, s\<lparr>statusBar := None\<rparr>)"
    by (simp add: updateStatusbar_def remove_summary_def appendLeft_def)
  then show ?thesis by blast
next
  case bar: (Some old)
  show ?thesis
  proof (cases "activeEditor s")
    case None
    with bar have "updateStatusbar s = (None, s\<lparr>statusBar := Some []\<rparr>)"
      by (simp add: updateStatusbar_def remove_summary_def appendLeft_def)
    then show ?thesis by blast
  next
    case ed: (Some ed)
    show ?thesis
    proof (cases "errorsByEditorId s (editor_id ed)")
      case None
      with bar ed have "updateStatusbar s = (None, s\<lparr>statusBar := Some []\<rparr>)"
        by (simp add: updateStatusbar_def remove_summary_def appendLeft_def)
      then show ?thesis by blast
    next
      case (Some errs)
      with assms ed have ne: "lodash_compact errs \<noteq> []"
        and gs: "\<forall>g \<in> set (lodash_compact errs). g \<noteq> []"
        by (simp_all add: well_grouped_def)
      show ?thesis
      proof (cases "array_get errs (cursor_row ed + 1)")
        case None
        from ne obtain g gs' where c: "lodash_compact errs = g # gs'"
          by (cases "lodash_compact errs") auto
        with gs obtain e es where "g = e # es" by (cases g) auto
        with c None Some bar ed
        have "updateStatusbar s = (None, s\<lparr>statusBar := Some [statusbar_html e]\<rparr>)"
          by (simp add: updateStatusbar_def remove_summary_def appendLeft_def)
        then show ?thesis by blast
      next
        case g: (Some g)
        from array_get_compact [OF this] gs have "g \<noteq> []" by blast
        then obtain e es where "g = e # es"
          by (cases g) auto
        with g Some bar ed
        have "updateStatusbar s = (None, s\<lparr>statusBar := Some [statusbar_html e]\<rparr>)"
          by (simp add: updateStatusbar_def remove_summary_def appendLeft_def)
        then show ?thesis by blast
      qed
    qed
  qed
qed

lemma compact_first_group:
  "lodash_compact errs = g # gs \<Longrightarrow>
   \<exists>i. array_get errs i = Some g \<and> (\<forall>j < i. array_get errs j = None)"
proof (induction errs rule: lodash_compact.induct)
  case 1
  then show ?case by simp
next
  case (2 xs)
  then obtain i where i: "array_get xs i = Some g" "\<forall>j < i. array_get xs j = None"
    by auto
  have "array_get (None # xs) (Suc i) = Some g"
    using i(1) by (simp add: array_get_def split: if_splits)
  moreover have "\<forall>j < Suc i. array_get (None # xs) j = None"
  proof (intro allI impI)
    fix j
    assume "j < Suc i"
    with i(2) show "array_get (None # xs) j = None"
      by (cases j) (auto simp: array_get_def)
  qed
  ultimately show ?case by blast
next
  case (3 x xs)
  then have "array_get (Some x # xs) 0 = Some g"
    by (simp add: array_get_def)
  then show ?case by blast
qed

text \<open>
  C5. With a status bar and an active editor: when no errors are stored for the editor
  the summary is removed and none is added; when errors are stored, the summary shows
  the first diagnostic of the group on the cursor's row (index \<open>row + 1\<close> of the array)
  if there is one, and otherwise of the group at the least index that holds one, as
  \<open>JSHint line:character reason\<close>. Whatever summary was there before is gone: the
  new element is the only one.
\<close>

theorem statusbar_summary:
  assumes bar: "statusBar s = Some old" and act: "activeEditor s = Some ed"
  shows "(errorsByEditorId s (editor_id ed) = None \<longrightarrow>
            updateStatusbar s = (None, s\<lparr>statusBar := Some []\<rparr>)) \<and>
         (\<forall>errs. errorsByEditorId s (editor_id ed) = Some errs \<and> lodash_compact errs \<noteq> [] \<and>
                 (\<forall>g \<in> set (lodash_compact errs). g \<noteq> []) \<longrightarrow>
            (\<exists>e es. (array_get errs (cursor_row ed + 1) = Some (e # es) \<or>
                      array_get errs (cursor_row ed + 1) = None \<and>
                      (\<exists>i. array_get errs i = Some (e # es) \<and>
                           (\<forall>j < i. array_get errs j = None))) \<and>
                    updateStatusbar s =
                      (None, s\<lparr>statusBar := Some
                         [''<span id=\"jshint-statusbar\" class=\"inline-block\">JSHint ''
                          @ decimal (line e) @ '':'' @ number_to_string (character e)
                          @ '' '' @ reason e @ ''</span>'']\<rparr>)))"
proof (intro conjI allI impI)
  assume "errorsByEditorId s (editor_id ed) = None"
  with bar act show "updateStatusbar s = (None, s\<lparr>statusBar := Some []\<rparr>)"
    by (simp add: updateStatusbar_def remove_summary_def appendLeft_def)
next
  fix errs
  assume h: "errorsByEditorId s (editor_id ed) = Some errs \<and> lodash_compact errs \<noteq> [] \<and>
                 (\<forall>g \<in> set (lodash_compact errs). g \<noteq> [])"
  show "\<exists>e es. (array_get errs (cursor_row ed + 1) = Some (e # es) \<or>
                      array_get errs (cursor_row ed + 1) = None \<and>
                      (\<exists>i. array_get errs i = Some (e # es) \<and>
                           (\<forall>j < i. array_get errs j = None))) \<and>
                    updateStatusbar s =
                      (None, s\<lparr>statusBar := Some
                         [''<span id=\"jshint-statusbar\" class=\"inline-block\">JSHint ''
                          @ decimal (line e) @ '':'' @ number_to_string (character e)
                          @ '' '' @ reason e @ ''</span>'']\<rparr>)"
  proof (cases "array_get errs (cursor_row ed + 1)")
    case None
    from h obtain g gs where c: "lodash_compact errs = g # gs"
      by (cases "lodash_compact errs") auto
    with h obtain e es where g: "g = e # es" by (cases g) auto
    from compact_first_group [OF c] g obtain i where
      "array_get errs i = Some (e # es)" "\<forall>j < i. array_get errs j = None"
      by blast
    moreover from c g None h bar act have "updateStatusbar s =
        (None, s\<lparr>statusBar := Some [statusbar_html e]\<rparr>)"
      by (simp add: updateStatusbar_def remove_summary_def appendLeft_def)
    ultimately show ?thesis
      using None unfolding statusbar_html_def by blast
  next
    case (Some g)
    from array_get_compact [OF this] h have "g \<noteq> []" by blast
    then obtain e es where g: "g = e # es" by (cases g) auto
    with Some h bar act have "updateStatusbar s =
        (None, s\<lparr>statusBar := Some [statusbar_html e]\<rparr>)"
      by (simp add: updateStatusbar_def remove_summary_def appendLeft_def)
    with Some g show ?thesis
      unfolding statusbar_html_def by blast
  qed
qed

theorem statusbar_summary_witness:
  "statusBar summary_state = Some [''stale summary''] \<and>
   activeEditor summary_state = Some js_editor \<and> cursor_row js_editor = 3 \<and>
   errorsByEditorId summary_state (editor_id js_editor)
     = Some [None, None, None, Some [semicolon], None, None, Some [unused]] \<and>
   updateStatusbar summary_state =
     (None, summary_state\<lparr>statusBar := Some
        [''<span id=\"jshint-statusbar\" class=\"inline-block\">JSHint 3:4 Missing semicolon</span>'']\<rparr>)"
proof -
  let ?errs = "[None, None, None, Some [semicolon], None, None, Some [unused]]"
  have bar: "statusBar summary_state = Some [''stale summary'']" by code_simp
  have act: "activeEditor summary_state = Some js_editor" by code_simp
  have cur: "cursor_row js_editor = 3" by code_simp
  have errs: "errorsByEditorId summary_state (editor_id js_editor) = Some ?errs"
    by code_simp
  have groups: "lodash_compact ?errs \<noteq> [] \<and> (\<forall>g \<in> set (lodash_compact ?errs). g \<noteq> [])"
    by simp
  have at_cursor: "array_get ?errs (cursor_row js_editor + 1) = None" by code_simp
  have third: "array_get ?errs 3 = Some [semicolon]" by code_simp
  have before: "array_get ?errs 0 = None" "array_get ?errs 1 = None" "array_get ?errs 2 = None"
    by code_simp+
  have least: "\<And>i g. array_get ?errs i = Some g \<Longrightarrow> \<forall>j < i. array_get ?errs j = None
      \<Longrightarrow> g = [semicolon]"
  proof -
    fix i g
    assume i: "array_get ?errs i = Some g" and j: "\<forall>j < i. array_get ?errs j = None"
    from j third have "\<not> 3 < i" by auto
    then have "i = 0 \<or> i = 1 \<or> i = 2 \<or> i = 3" by arith
    with i before third show "g = [semicolon]" by auto
  qed
  have html: "''<span id=\"jshint-statusbar\" class=\"inline-block\">JSHint ''
       @ decimal (line semicolon) @ '':'' @ number_to_string (character semicolon)
       @ '' '' @ reason semicolon @ ''</span>''
     = ''<span id=\"jshint-statusbar\" class=\"inline-block\">JSHint 3:4 Missing semicolon</span>''"
    by code_simp
  from statusbar_summary [OF bar act] errs groups obtain e es where
    pick: "array_get ?errs (cursor_row js_editor + 1) = Some (e # es) \<or>
           array_get ?errs (cursor_row js_editor + 1) = None \<and>
           (\<exists>i. array_get ?errs i = Some (e # es) \<and> (\<forall>j < i. array_get ?errs j = None))"
    and upd: "updateStatusbar summary_state =
      (None, summary_state\<lparr>statusBar := Some
         [''<span id=\"jshint-statusbar\" class=\"inline-block\">JSHint ''
          @ decimal (line e) @ '':'' @ number_to_string (character e)
          @ '' '' @ reason e @ ''</span>'']\<rparr>)"
    by blast
  from pick at_cursor least have "e # es = [semicolon]" by auto
  then have "e = semicolon" by simp
  with upd html bar act cur errs show ?thesis by simp
qed

section \<open>Properties of the lint pass\<close>

lemma grammar_not_listed:
  "(grammar_name ed \<notin> set [''JavaScript'', ''JavaScript (JSX)'']) = (\<not> supported_grammar ed)"
  by (auto simp: supported_grammar_def)

text \<open>
  C7. Without a current editor, or with an editor whose grammar is neither
  \<open>JavaScript\<close> nor \<open>JavaScript (JSX)\<close>, the lint pass returns at once: the whole state is
  unchanged, for every editor, and the record of calls is unchanged too, so no engine
  was called.
\<close>

theorem lint_unsupported_noop:
  "activeEditor s = None \<or> (\<exists>ed. activeEditor s = Some ed \<and> \<not> supported_grammar ed)
   \<Longrightarrow> lint loadConfig engine s = (None, s)"
  by (auto simp: lint_def grammar_not_listed simp del: set_simps)

theorem lint_unsupported_noop_witness:
  "activeEditor (fresh_state\<lparr>activeEditor := Some coffee_editor\<rparr>) = Some coffee_editor
   \<and> \<not> supported_grammar coffee_editor
   \<and> lint no_config failing_engine (fresh_state\<lparr>activeEditor := Some coffee_editor\<rparr>)
       = (None, fresh_state\<lparr>activeEditor := Some coffee_editor\<rparr>)"
  using lint_unsupported_noop
    [of "fresh_state\<lparr>activeEditor := Some coffee_editor\<rparr>" no_config failing_engine]
  by (simp add: supported_grammar_def coffee_editor_def js_editor_def)

text \<open>
  C6. When the configuration resolver or the engine throws, the exception leaves the
  lint pass, and the pass has changed neither the marker store, nor the markers of the
  host, nor the stored errors, nor the status bar; the calls it made create and destroy
  no marker.
\<close>

theorem lint_failure_atomic:
  assumes "activeEditor s = Some ed" and "supported_grammar ed"
    and "config_for loadConfig ed = Inl e \<or>
         (\<exists>c. config_for loadConfig ed = Inr c \<and>
              engine (select_linter s) (buffer_text ed) c (globals c) = Inl e)"
  shows "\<exists>s'. lint loadConfig engine s = (Some e, s') \<and>
           markersByEditorId s' = markersByEditorId s \<and>
           errorsByEditorId s' = errorsByEditorId s \<and>
           liveMarkers s' = liveMarkers s \<and>
           statusBar s' = statusBar s \<and>
           (\<exists>evs. calls s' = calls s @ evs \<and> \<not> list_ex is_marker_event evs)"
  using assms
  apply (cases "uri ed")
   apply (simp_all add: lint_def grammar_not_listed config_for_def select_linter_def Let_def
      del: set_simps split: if_splits)
   apply (auto simp: select_linter_def Let_def)
  done

theorem lint_failure_atomic_witness:
  "activeEditor fresh_state = Some js_editor \<and> supported_grammar js_editor \<and>
   config_for no_config js_editor = Inr empty_config \<and>
   failing_engine (select_linter fresh_state) (buffer_text js_editor) empty_config
     (globals empty_config) = Inl (Thrown ''engine'') \<and>
   (\<exists>s'. lint no_config failing_engine fresh_state = (Some (Thrown ''engine''), s') \<and>
      markersByEditorId s' = markersByEditorId fresh_state \<and>
      errorsByEditorId s' = errorsByEditorId fresh_state \<and>
      liveMarkers s' = liveMarkers fresh_state \<and>
      statusBar s' = statusBar fresh_state \<and>
      (\<exists>evs. calls s' = calls fresh_state @ evs \<and> \<not> list_ex is_marker_event evs))"
proof -
  have a: "activeEditor fresh_state = Some js_editor"
    by (simp add: fresh_state_def)
  have g: "supported_grammar js_editor"
    by (simp add: supported_grammar_def js_editor_def)
  have c: "config_for no_config js_editor = Inr empty_config"
    by (simp add: config_for_def js_editor_def)
  have f: "failing_engine (select_linter fresh_state) (buffer_text js_editor) empty_config
     (globals empty_config) = Inl (Thrown ''engine'')"
    by (simp add: failing_engine_def)
  from c f have d: "config_for no_config js_editor = Inl (Thrown ''engine'') \<or>
      (\<exists>c. config_for no_config js_editor = Inr c \<and>
         failing_engine (select_linter fresh_state) (buffer_text js_editor) c (globals c)
           = Inl (Thrown ''engine''))"
    by blast
  show ?thesis
    using lint_failure_atomic
      [of fresh_state js_editor no_config "Thrown ''engine''" failing_engine, OF a g d] a g c f
    by blast
qed

lemma select_linter_calls [simp]: "select_linter (s\<lparr>calls := evs\<rparr>) = select_linter s"
  by (simp add: select_linter_def)

lemma lint_reaches_display:
  assumes act: "activeEditor s = Some ed" and supp: "supported_grammar ed"
    and cfg: "config_for loadConfig ed = Inr c"
    and eng: "engine (select_linter s) (buffer_text ed) c (globals c) = Inr raw"
  shows "\<exists>s0. lint loadConfig engine s
             = displayErrors (lodash_compact (aggregate (lodash_compact raw))) s0 \<and>
           activeEditor s0 = Some ed \<and> markersByEditorId s0 = markersByEditorId s \<and>
           liveMarkers s0 = liveMarkers s \<and> statusBar s0 = statusBar s \<and>
           errorsByEditorId s0 =
             (if lodash_compact raw = [] then (errorsByEditorId s)(editor_id ed := None)
              else (errorsByEditorId s)(editor_id ed \<mapsto> aggregate (lodash_compact raw))) \<and>
           linters_invoked (calls s0) = linters_invoked (calls s) @ [select_linter s]"
proof (cases "uri ed = None \<or> uri ed = Some []")
  case True
  with cfg have c: "c = empty_config"
    by (auto simp: config_for_def)
  from True act supp eng c show ?thesis
    by (auto simp: lint_def grammar_not_listed Let_def removeErrorsForEditorId_def
        aggregate_empty linters_invoked_append simp del: set_simps)
next
  case False
  then obtain f where f: "uri ed = Some f" "f \<noteq> []" by auto
  with cfg have "loadConfig f = Inr c"
    by (simp add: config_for_def)
  with f act supp eng show ?thesis
    by (auto simp: lint_def grammar_not_listed Let_def removeErrorsForEditorId_def
        aggregate_empty linters_invoked_append simp del: set_simps)
qed

lemma rows_of_heads:
  "\<forall>g \<in> set gs. g \<noteq> [] \<Longrightarrow>
   rows_of gs = Inr (map (\<lambda>g. row_of_line (line (hd g))) gs)"
  by (induction gs) (simp_all add: getRowForError_hd)

lemma aggregate_rows:
  "rows_of (lodash_compact (aggregate ds))
     = Inr (map (\<lambda>g. row_of_line (line (hd g))) (lodash_compact (aggregate ds)))"
  by (rule rows_of_heads) (simp add: group_head_line)

lemma aggregate_row_set:
  "(\<lambda>g. row_of_line (line (hd g))) ` set (lodash_compact (aggregate ds))
     = (\<lambda>d. row_of_line (line d)) ` set ds"
proof (intro equalityI subsetI)
  fix r
  assume "r \<in> (\<lambda>g. row_of_line (line (hd g))) ` set (lodash_compact (aggregate ds))"
  then obtain g where g: "g \<in> set (lodash_compact (aggregate ds))"
    and r: "r = row_of_line (line (hd g))" by blast
  from group_head_line [OF g] have "hd g \<in> set ds"
    by (metis hd_in_set)
  with r show "r \<in> (\<lambda>d. row_of_line (line d)) ` set ds" by blast
next
  fix r
  assume "r \<in> (\<lambda>d. row_of_line (line d)) ` set ds"
  then obtain d where d: "d \<in> set ds" and r: "r = row_of_line (line d)" by blast
  let ?g = "sort_key character (filter (\<lambda>e. line e = line d) ds)"
  from d have ne: "?g \<noteq> []"
    by (auto simp: sort_key_empty_iff filter_empty_conv)
  then have g: "?g \<in> set (lodash_compact (aggregate ds))"
    by (auto simp: aggregate_groups)
  from ne have "hd ?g \<in> set ?g" by (rule hd_in_set)
  then have "line (hd ?g) = line d" by simp
  with g r show "r \<in> (\<lambda>g. row_of_line (line (hd g))) ` set (lodash_compact (aggregate ds))"
    by (metis (mono_tags, lifting) image_eqI)
qed

lemma lint_well_grouped:
  assumes "activeEditor s0 = Some ed"
    and "errorsByEditorId s0 =
           (if ds = [] then (m :: nat \<rightharpoonup> group option list)(editor_id ed := None)
            else m(editor_id ed \<mapsto> aggregate ds))"
  shows "well_grouped s0"
  using assms
  by (auto simp: well_grouped_def aggregate_nonempty group_head_line)

lemma no_leak_statusBar [simp]: "no_leak (s\<lparr>statusBar := sb\<rparr>) i = no_leak s i"
  by (simp add: no_leak_def store_of_def)

lemma live_rows_statusBar [simp]: "live_rows (s\<lparr>statusBar := sb\<rparr>) i = live_rows s i"
  by (simp add: live_rows_def)

lemma store_of_statusBar [simp]: "store_of (s\<lparr>statusBar := sb\<rparr>) i = store_of s i"
  by (simp add: store_of_def)

lemma displayErrors_reconciles:
  assumes act: "activeEditor s = Some ed" and rows: "rows_of gs = Inr rows"
    and wg: "well_grouped s" and nl: "no_leak s (editor_id ed)"
  shows "\<exists>s'. displayErrors gs s = (None, s') \<and>
           set (live_rows s' (editor_id ed)) = set rows \<and>
           distinct (live_rows s' (editor_id ed)) \<and> no_leak s' (editor_id ed) \<and>
           activeEditor s' = Some ed \<and> errorsByEditorId s' = errorsByEditorId s \<and>
           linters_invoked (calls s') = linters_invoked (calls s)"
proof -
  let ?i = "editor_id ed"
  from clearOldMarkers_clears [OF act rows] nl obtain s1 where
    c: "clearOldMarkers gs s = (None, s1)" and c1: "same_context s s1"
    and st1: "store_of s1 ?i = Map.empty" and l1: "live_rows s1 ?i = []"
    by blast
  from c1 wg have "well_grouped s1"
    by (auto simp: same_context_def well_grouped_def split: option.splits)
  from updateStatusbar_runs [OF this] obtain sb where
    u: "updateStatusbar s1 = (None, s1\<lparr>statusBar := sb\<rparr>)"
    by blast
  let ?s2 = "s1\<lparr>statusBar := sb\<rparr>"
  from c1 act have a2: "activeEditor ?s2 = Some ed"
    by (simp add: same_context_def)
  have t2: "tracked ?s2 ?i"
    using st1 l1 by (simp add: tracked_def no_leak_def live_rows_def filter_empty_conv)
  from display_loop [OF a2 rows t2] obtain s3 where
    e: "each displayError gs ?s2 = (None, s3)" and c3: "same_context ?s2 s3"
    and t3: "tracked s3 ?i"
    and l3: "set (live_rows s3 ?i) = set rows \<union> set (live_rows ?s2 ?i)"
    by blast
  have "displayErrors gs s = (None, s3)"
    using c u e by (simp add: displayErrors_def and_then_def)
  moreover have "set (live_rows s3 ?i) = set rows"
    using l3 l1 by simp
  moreover have "activeEditor s3 = Some ed \<and> errorsByEditorId s3 = errorsByEditorId s \<and>
      linters_invoked (calls s3) = linters_invoked (calls s)"
    using c1 c3 act by (simp add: same_context_def)
  ultimately show ?thesis
    using t3 by (auto simp: tracked_def)
qed

text \<open>
  C1. A lint pass that reaches reconciliation (an active editor with a supported grammar,
  a configuration, an engine that returns) completes, and afterwards the rows of the
  markers alive for the editor are exactly the rows \<open>getRowForError\<close> gives the groups of
  that pass, each row once. The editor's live markers are assumed to be those its store
  holds, which is so at the start and again after every pass.
\<close>

theorem lint_reconciles_markers:
  assumes act: "activeEditor s = Some ed" and supp: "supported_grammar ed"
    and cfg: "config_for loadConfig ed = Inr c"
    and eng: "engine (select_linter s) (buffer_text ed) c (globals c) = Inr raw"
    and nl: "no_leak s (editor_id ed)"
  shows "\<exists>s' rows. lint loadConfig engine s = (None, s') \<and>
           rows_of (lodash_compact (aggregate (lodash_compact raw))) = Inr rows \<and>
           set rows = (\<lambda>d. row_of_line (line d)) ` set (lodash_compact raw) \<and>
           set (live_rows s' (editor_id ed)) = set rows \<and>
           distinct (live_rows s' (editor_id ed)) \<and>
           no_leak s' (editor_id ed)"
proof -
  let ?ds = "lodash_compact raw"
  let ?gs = "lodash_compact (aggregate ?ds)"
  let ?rows = "map (\<lambda>g. row_of_line (line (hd g))) ?gs"
  from lint_reaches_display [where engine = engine, OF act supp cfg eng] obtain s0 where
    l: "lint loadConfig engine s = displayErrors ?gs s0"
    and a0: "activeEditor s0 = Some ed"
    and m0: "markersByEditorId s0 = markersByEditorId s"
    and l0: "liveMarkers s0 = liveMarkers s"
    and e0: "errorsByEditorId s0 =
             (if ?ds = [] then (errorsByEditorId s)(editor_id ed := None)
              else (errorsByEditorId s)(editor_id ed \<mapsto> aggregate ?ds))"
    by blast
  have rows: "rows_of ?gs = Inr ?rows"
    by (rule aggregate_rows)
  have wg: "well_grouped s0"
    using a0 e0 by (rule lint_well_grouped)
  from nl m0 l0 have nl0: "no_leak s0 (editor_id ed)"
    by (simp add: no_leak_def store_of_def)
  from displayErrors_reconciles [OF a0 rows wg nl0] obtain s' where
    "displayErrors ?gs s0 = (None, s')"
    and "set (live_rows s' (editor_id ed)) = set ?rows"
    and "distinct (live_rows s' (editor_id ed))" and "no_leak s' (editor_id ed)"
    by blast
  moreover have "set ?rows = (\<lambda>d. row_of_line (line d)) ` set ?ds"
    using aggregate_row_set [of ?ds] by simp
  ultimately show ?thesis
    using l rows by auto
qed

theorem lint_reconciles_markers_witness:
  "activeEditor stale_state = Some js_editor \<and> supported_grammar js_editor \<and>
   config_for no_config js_editor = Inr empty_config \<and>
   sample_engine (select_linter stale_state) (buffer_text js_editor) empty_config
     (globals empty_config) = Inr sample_raw \<and>
   no_leak stale_state (editor_id js_editor) \<and>
   live_rows stale_state (editor_id js_editor) = [9] \<and>
   set (live_rows (snd (lint no_config sample_engine stale_state)) (editor_id js_editor))
     = {2, 5} \<and>
   distinct (live_rows (snd (lint no_config sample_engine stale_state)) (editor_id js_editor))"
proof -
  have a: "activeEditor stale_state = Some js_editor" by code_simp
  have g: "supported_grammar js_editor" by code_simp
  have c: "config_for no_config js_editor = Inr empty_config" by code_simp
  have e: "sample_engine (select_linter stale_state) (buffer_text js_editor) empty_config
     (globals empty_config) = Inr sample_raw"
    by (simp add: sample_engine_def)
  have n: "no_leak stale_state (editor_id js_editor)" by code_simp
  have l: "live_rows stale_state (editor_id js_editor) = [9]" by code_simp
  have r: "(\<lambda>d. row_of_line (line d)) ` set (lodash_compact sample_raw) = {2, 5}"
    by (auto simp: sample_raw_def late_def unused_def semicolon_def row_of_line_def)
  from lint_reconciles_markers [where engine = sample_engine, OF a g c e n] r
  have "set (live_rows (snd (lint no_config sample_engine stale_state)) (editor_id js_editor))
     = {2, 5} \<and>
   distinct (live_rows (snd (lint no_config sample_engine stale_state)) (editor_id js_editor))"
    by auto
  with a g c e n l show ?thesis by blast
qed

text \<open>
  C2 fails on the code. \<open>clearOldMarkers\<close> looks the property names of the store, which
  are strings, up among the rows, which are numbers, so it finds none and destroys every
  marker; \<open>displayError\<close> then creates them again. A second pass with the same two
  groups destroys both markers of the first and creates two new ones.
\<close>

theorem second_pass_recreates_markers:
  "filter is_marker_event (calls once_linted) = [MarkerCreated 0 7 2, MarkerCreated 1 7 5] \<and>
   filter is_marker_event (calls twice_linted)
     = [MarkerCreated 0 7 2, MarkerCreated 1 7 5, MarkerDestroyed 0, MarkerDestroyed 1,
        MarkerCreated 2 7 2, MarkerCreated 3 7 5]"
  by code_simp

lemma displayErrors_frame:
  assumes act: "activeEditor s = Some ed" and rows: "rows_of gs = Inr rows"
    and wg: "well_grouped s"
  shows "\<exists>s'. displayErrors gs s = (None, s') \<and>
           errorsByEditorId s' = errorsByEditorId s \<and>
           linters_invoked (calls s') = linters_invoked (calls s)"
proof -
  from clearOldMarkers_clears [OF act rows] obtain s1 where
    c: "clearOldMarkers gs s = (None, s1)" and c1: "same_context s s1"
    by blast
  from c1 wg have "well_grouped s1"
    by (auto simp: same_context_def well_grouped_def split: option.splits)
  from updateStatusbar_runs [OF this] obtain sb where
    u: "updateStatusbar s1 = (None, s1\<lparr>statusBar := sb\<rparr>)"
    by blast
  from c1 act have "activeEditor (s1\<lparr>statusBar := sb\<rparr>) = Some ed"
    by (simp add: same_context_def)
  from display_loop_context [OF this rows] obtain s3 where
    e: "each displayError gs (s1\<lparr>statusBar := sb\<rparr>) = (None, s3)"
    and c3: "same_context (s1\<lparr>statusBar := sb\<rparr>) s3"
    by blast
  have "displayErrors gs s = (None, s3)"
    using c u e by (simp add: displayErrors_def and_then_def)
  moreover have "errorsByEditorId s3 = errorsByEditorId s \<and>
      linters_invoked (calls s3) = linters_invoked (calls s)"
    using c1 c3 by (simp add: same_context_def)
  ultimately show ?thesis by blast
qed

lemma lint_without_diagnostics:
  assumes act: "activeEditor s = Some ed" and supp: "supported_grammar ed"
    and cfg: "config_for loadConfig ed = Inr c"
    and eng: "engine (select_linter s) (buffer_text ed) c (globals c) = Inr raw"
    and none: "lodash_compact raw = []"
  shows "errorsByEditorId (snd (lint loadConfig engine s)) (editor_id ed) = None"
proof -
  from lint_reaches_display [where engine = engine, OF act supp cfg eng] none obtain s0 where
    l: "lint loadConfig engine s = displayErrors [] s0"
    and a0: "activeEditor s0 = Some ed"
    and e0: "errorsByEditorId s0 = (errorsByEditorId s)(editor_id ed := None)"
    by (auto simp: aggregate_empty)
  from a0 e0 have wg: "well_grouped s0"
    by (simp add: well_grouped_def)
  have "rows_of [] = Inr []" by simp
  from displayErrors_frame [OF a0 this wg] obtain s' where
    "displayErrors [] s0 = (None, s')" and "errorsByEditorId s' = errorsByEditorId s0"
    by blast
  with l e0 show ?thesis by simp
qed

text \<open>
  C4. The array \<open>aggregate\<close> builds holds, at each index \<open>l\<close> that is not a hole, the
  diagnostics of line \<open>l\<close> and no other, in ascending order of \<open>character\<close> (those with
  equal \<open>character\<close> in their order of arrival); diagnostics of different lines are
  therefore never in one group. For no diagnostics the array is empty, and so is the
  list of groups; a pass whose engine reports no diagnostic (or only \<open>null\<close>) does not
  run the aggregation and leaves no errors stored for the editor.
\<close>

theorem aggregate_groups_sorted:
  "(\<forall>l g. array_get (aggregate ds) l = Some g \<longrightarrow>
       g = sort_key character (filter (\<lambda>d. line d = l) ds) \<and>
       sorted (map character g) \<and> (\<forall>d \<in> set g. line d = l)) \<and>
   aggregate [] = [] \<and> lodash_compact (aggregate []) = [] \<and>
   (activeEditor s = Some ed \<and> supported_grammar ed \<and> config_for loadConfig ed = Inr c \<and>
    engine (select_linter s) (buffer_text ed) c (globals c) = Inr raw \<and>
    lodash_compact raw = [] \<longrightarrow>
      errorsByEditorId (snd (lint loadConfig engine s)) (editor_id ed) = None)"
proof -
  have "\<forall>l g. array_get (aggregate ds) l = Some g \<longrightarrow>
       g = sort_key character (filter (\<lambda>d. line d = l) ds) \<and>
       sorted (map character g) \<and> (\<forall>d \<in> set g. line d = l)"
    by (auto simp: aggregate_get split: if_splits)
  moreover have "activeEditor s = Some ed \<and> supported_grammar ed \<and>
      config_for loadConfig ed = Inr c \<and>
      engine (select_linter s) (buffer_text ed) c (globals c) = Inr raw \<and>
      lodash_compact raw = [] \<longrightarrow>
      errorsByEditorId (snd (lint loadConfig engine s)) (editor_id ed) = None"
    using lint_without_diagnostics [where engine = engine] by blast
  ultimately show ?thesis
    by (simp add: aggregate_empty)
qed

theorem aggregate_groups_sorted_witness:
  "array_get (aggregate [late, unused, semicolon]) 3 = Some [semicolon, late] \<and>
   [semicolon, late] = sort_key character (filter (\<lambda>d. line d = 3) [late, unused, semicolon]) \<and>
   sorted (map character [semicolon, late]) \<and> line semicolon = 3 \<and> line late = 3 \<and>
   activeEditor summary_state = Some js_editor \<and> supported_grammar js_editor \<and>
   config_for no_config js_editor = Inr empty_config \<and>
   silent_engine (select_linter summary_state) (buffer_text js_editor) empty_config
     (globals empty_config) = Inr [None] \<and>
   lodash_compact [None :: diagnostic option] = [] \<and>
   errorsByEditorId summary_state (editor_id js_editor)
     = Some [None, None, None, Some [semicolon], None, None, Some [unused]] \<and>
   errorsByEditorId (snd (lint no_config silent_engine summary_state)) (editor_id js_editor)
     = None"
proof -
  have g: "array_get (aggregate [late, unused, semicolon]) 3 = Some [semicolon, late]"
    by code_simp
  have a: "activeEditor summary_state = Some js_editor" by code_simp
  have s: "supported_grammar js_editor" by code_simp
  have c: "config_for no_config js_editor = Inr empty_config" by code_simp
  have e: "silent_engine (select_linter summary_state) (buffer_text js_editor) empty_config
     (globals empty_config) = Inr [None]"
    by (simp add: silent_engine_def)
  have n: "lodash_compact [None :: diagnostic option] = []" by simp
  have before: "errorsByEditorId summary_state (editor_id js_editor)
     = Some [None, None, None, Some [semicolon], None, None, Some [unused]]"
    by code_simp
  note inst = aggregate_groups_sorted
    [of "[late, unused, semicolon]" summary_state js_editor no_config empty_config
      silent_engine "[None]"]
  from inst g have "[semicolon, late]
          = sort_key character (filter (\<lambda>d. line d = 3) [late, unused, semicolon]) \<and>
        sorted (map character [semicolon, late])"
    by blast
  moreover have "line semicolon = 3 \<and> line late = 3"
    by (simp add: semicolon_def late_def)
  moreover from inst a s c e n
  have "errorsByEditorId (snd (lint no_config silent_engine summary_state)) (editor_id js_editor)
     = None"
    by blast
  ultimately show ?thesis
    using g a s c e n before by blast
qed

lemma lint_engine_throws:
  assumes act: "activeEditor s = Some ed" and supp: "supported_grammar ed"
    and cfg: "config_for loadConfig ed = Inr c"
    and eng: "engine (select_linter s) (buffer_text ed) c (globals c) = Inl e"
  shows "linters_invoked (calls (snd (lint loadConfig engine s)))
           = linters_invoked (calls s) @ [select_linter s]"
proof (cases "uri ed = None \<or> uri ed = Some []")
  case True
  with cfg have c: "c = empty_config"
    by (auto simp: config_for_def)
  from True act supp eng c show ?thesis
    by (auto simp: lint_def grammar_not_listed Let_def linters_invoked_append
        simp del: set_simps)
next
  case False
  then obtain f where f: "uri ed = Some f" "f \<noteq> []" by auto
  with cfg have "loadConfig f = Inr c"
    by (simp add: config_for_def)
  with f act supp eng show ?thesis
    by (auto simp: lint_def grammar_not_listed Let_def linters_invoked_append
        simp del: set_simps)
qed

text \<open>
  C8. A pass that gets as far as the engine invokes exactly one engine, and it is the
  JSX-aware one if and only if \<open>supportLintingJsx\<close> or \<open>transformJsx\<close> is set, the standard
  one if and only if neither is.
\<close>

theorem lint_selects_engine:
  assumes act: "activeEditor s = Some ed" and supp: "supported_grammar ed"
    and cfg: "config_for loadConfig ed = Inr c"
  shows "\<exists>l. linters_invoked (calls (snd (lint loadConfig engine s)))
               = linters_invoked (calls s) @ [l] \<and>
             (l = JSXHINT \<longleftrightarrow> supportLintingJsx s \<or> transformJsx s) \<and>
             (l = JSHINT \<longleftrightarrow> \<not> supportLintingJsx s \<and> \<not> transformJsx s)"
proof -
  have "linters_invoked (calls (snd (lint loadConfig engine s)))
          = linters_invoked (calls s) @ [select_linter s]"
  proof (cases "engine (select_linter s) (buffer_text ed) c (globals c)")
    case (Inl e)
    from lint_engine_throws [where engine = engine, OF act supp cfg Inl] show ?thesis .
  next
    case (Inr raw)
    let ?gs = "lodash_compact (aggregate (lodash_compact raw))"
    from lint_reaches_display [where engine = engine, OF act supp cfg Inr] obtain s0 where
      l: "lint loadConfig engine s = displayErrors ?gs s0"
      and a0: "activeEditor s0 = Some ed"
      and e0: "errorsByEditorId s0 =
             (if lodash_compact raw = [] then (errorsByEditorId s)(editor_id ed := None)
              else (errorsByEditorId s)(editor_id ed \<mapsto> aggregate (lodash_compact raw)))"
      and k0: "linters_invoked (calls s0) = linters_invoked (calls s) @ [select_linter s]"
      by blast
    have wg: "well_grouped s0"
      using a0 e0 by (rule lint_well_grouped)
    from displayErrors_frame [OF a0 aggregate_rows wg] obtain s' where
      "displayErrors ?gs s0 = (None, s')"
      and "linters_invoked (calls s') = linters_invoked (calls s0)"
      by blast
    with l k0 show ?thesis by simp
  qed
  then show ?thesis
    by (auto simp: select_linter_def)
qed

theorem lint_selects_engine_witness:
  "activeEditor jsx_state = Some js_editor \<and> supported_grammar js_editor \<and>
   config_for no_config js_editor = Inr empty_config \<and>
   \<not> supportLintingJsx jsx_state \<and> transformJsx jsx_state \<and>
   linters_invoked (calls (snd (lint no_config sample_engine jsx_state)))
     = linters_invoked (calls jsx_state) @ [JSXHINT]"
proof -
  have a: "activeEditor jsx_state = Some js_editor" by code_simp
  have g: "supported_grammar js_editor" by code_simp
  have c: "config_for no_config js_editor = Inr empty_config" by code_simp
  have f: "\<not> supportLintingJsx jsx_state \<and> transformJsx jsx_state" by code_simp
  from lint_selects_engine [where engine = sample_engine, OF a g c] f
  have "linters_invoked (calls (snd (lint no_config sample_engine jsx_state)))
     = linters_invoked (calls jsx_state) @ [JSXHINT]"
    by auto
  with a g c f show ?thesis by blast
qed

end
